theory Spec2Isabelle
  imports Main
begin

section \<open>The scrapify engine as an interleaving of goroutines\<close>

text \<open>
  The Go package runs five kinds of goroutines over one shared \<open>Scraper\<close> struct: the
  caller inside \<open>Run\<close>, the job dispatcher and the result sink started by \<open>getData\<close>, one
  \<open>runScraper\<close> walker per page, and one extraction closure per item URL. Each goroutine
  is a program counter that carries its local variables; one step executes one statement
  of the source. A schedule chooses which goroutine moves next, when the clock ticks and
  when the context is cancelled, so every interleaving of the statements is an execution
  of the model. A goroutine that is scheduled while it is blocked (on a channel, on
  \<open>Wait\<close>, in \<open>time.Sleep\<close>) leaves the state unchanged. A send on one of the two
  unbuffered channels is a step of the sender that is possible when the receiver stands
  at its receive, and it moves both; a send on a closed channel, the close of a closed
  channel and a negative WaitGroup counter panic. \<open>Wait\<close> returns when the counter is 0.

  The extractor is caller code. \<open>GetUrls\<close> is a function of the URL and of whether the
  context is already cancelled when it is called; \<open>GetData\<close> is the list of values it
  sends on the data channel, in order (the empty list is a failed extraction).
\<close>

type_synonym url = string

record 'a IScraper =
  GetUrls :: "bool \<Rightarrow> url \<Rightarrow> url list \<times> url list"
  GetData :: "bool \<Rightarrow> url \<Rightarrow> 'a list"

record 'a ScraperStrategy =
  Scraper :: "'a IScraper"
  Url :: url

record 'a ScraperJob =
  scraper :: "'a IScraper"
  urls :: "url list"

datatype chan = Open | Closed

subsection \<open>Program counters\<close>

text \<open>
  A program counter names the statement of \<^verbatim>\<open>scrapify.go\<close> that the goroutine executes
  next and carries the local variables that statement needs.

  \<^item> \<open>Run\<close>: \<open>Run_Add\<close> is line 132; \<open>Run_go_jobs\<close> and \<open>Run_go_sink\<close> are the two \<open>go\<close> statements
    of \<open>getData\<close> (lines 61 and 87), which line 135 calls; \<open>Run_range k\<close> is the loop of lines
    138 to 141 at index \<open>k\<close>; \<open>Run_Wait\<close> is line 144, \<open>Run_close_jobs\<close> line 147 and
    \<open>Run_close_ch\<close> line 148.
  \<^item> The dispatcher (lines 61 to 85): \<open>Disp_range\<close> waits at line 62 for a job or for the
    close of the channel; \<open>Disp_urls job rest\<close> is the inner loop at line 63 with the item
    URLs \<open>rest\<close> still to launch (line 64); \<open>Disp_delay\<close> is the test of line 80 and
    \<open>Disp_Sleep\<close> the sleep of line 81 with its wake-up time.
  \<^item> The sink (lines 87 to 97): \<open>Sink_select\<close> is line 88, \<open>Sink_range\<close> waits at line 93,
    \<open>Sink_callback x\<close> is line 94.
  \<^item> The extraction closure (lines 64 to 77): \<open>Ext_check\<close> is line 68, \<open>Ext_GetData\<close> the call
    of line 74, \<open>Ext_sending u xs\<close> is inside \<open>GetData\<close> with the items \<open>xs\<close> still to send
    (with none left \<open>GetData\<close> returns and line 75 is next), \<open>Ext_Done\<close> the deferred \<open>Done\<close> of
    line 65.
  \<^item> The walker \<open>runScraper\<close> (lines 102 to 126): \<open>Walk_GetUrls\<close> is line 106, \<open>Walk_mark\<close>
    line 107, \<open>Walk_Add_urls\<close> line 108, \<open>Walk_Add_one\<close> line 109, \<open>Walk_send\<close> line 112,
    \<open>Walk_range\<close> the loop head and test of lines 115 and 116, \<open>Walk_Add_next\<close> line 120,
    \<open>Walk_mark_next\<close> line 121, \<open>Walk_go\<close> line 124 and \<open>Walk_Done\<close> the deferred \<open>Done\<close> of
    line 103.

  The closure reads \<open>job.scraper\<close> when it calls \<open>GetData\<close>; it gets the scraper of the job it
  was launched for (loop variables are per iteration, as from Go 1.22 on).
\<close>

datatype Run_pc =
    Run_Add
  | Run_go_jobs
  | Run_go_sink
  | Run_range nat
  | Run_Wait
  | Run_close_jobs
  | Run_close_ch
  | Run_returned

datatype 'a dispatch_pc =
    Disp_range
  | Disp_urls "'a ScraperJob" "url list"
  | Disp_delay "'a ScraperJob" "url list"
  | Disp_Sleep "'a ScraperJob" "url list" int
  | Disp_returned

datatype 'a sink_pc =
    Sink_select
  | Sink_range
  | Sink_callback 'a
  | Sink_returned

datatype 'a extract_pc =
    Ext_check "'a IScraper" url
  | Ext_GetData "'a IScraper" url
  | Ext_sending url "'a list"
  | Ext_Done
  | Ext_returned

datatype 'a runScraper_pc =
    Walk_GetUrls "'a ScraperStrategy"
  | Walk_mark "'a ScraperStrategy" "url list" "url list"
  | Walk_Add_urls "'a ScraperStrategy" "url list" "url list"
  | Walk_Add_one "'a ScraperStrategy" "url list" "url list"
  | Walk_send "'a ScraperStrategy" "url list" "url list"
  | Walk_range "'a ScraperStrategy" "url list"
  | Walk_Add_next "'a ScraperStrategy" url "url list"
  | Walk_mark_next "'a ScraperStrategy" url "url list"
  | Walk_go "'a ScraperStrategy" url "url list"
  | Walk_Done "'a ScraperStrategy"
  | Walk_returned "'a ScraperStrategy"

datatype 'a goroutine =
    G_Run Run_pc
  | G_dispatch "'a dispatch_pc"
  | G_sink "'a sink_pc"
  | G_extract "'a extract_pc"
  | G_runScraper "'a runScraper_pc"

subsection \<open>The shared state\<close>

text \<open>
  What a goroutine did, for the log of the run. Each entry of the log carries the clock
  value and the index of the goroutine; the newest entry is the head of the list.
\<close>

datatype 'a action =
    A_Add int
  | A_Done
  | A_Wait
  | A_go nat
  | A_close_jobs
  | A_close_ch
  | A_GetUrls url
  | A_GetData url
  | A_check url bool
  | A_mark url
  | A_send_job "url list"
  | A_send 'a
  | A_callback 'a
  | A_Sleep int

text \<open>
  The fields of the \<open>Scraper\<close> struct, with the context, the clock, the goroutines and
  the log beside them. Both channels are unbuffered, so a channel holds nothing and its
  state is whether it is closed. The user callback is observed through the log.
\<close>

record 'a state =
  strategy :: "'a ScraperStrategy list"
  jobs :: chan
  ch :: chan
  wg :: int
  scrapedUrls :: "url \<rightharpoonup> bool"
  requestDelay :: int
  ctx_done :: bool
  now :: int
  goroutines :: "'a goroutine list"
  trace :: "(int \<times> nat \<times> 'a action) list"
  panicked :: bool

definition NewScraper :: "'a ScraperStrategy list \<Rightarrow> int \<Rightarrow> 'a state" where
  "NewScraper s delay =
     \<lparr>strategy = s, jobs = Open, ch = Open, wg = 0, scrapedUrls = Map.empty,
      requestDelay = delay, ctx_done = False, now = 0, goroutines = [], trace = [],
      panicked = False\<rparr>"

subsection \<open>Primitive effects\<close>

definition emit :: "nat \<Rightarrow> 'a action \<Rightarrow> 'a state \<Rightarrow> 'a state" where
  "emit i a s = s\<lparr>trace := (now s, i, a) # trace s\<rparr>"

definition goto :: "nat \<Rightarrow> 'a goroutine \<Rightarrow> 'a state \<Rightarrow> 'a state" where
  "goto i g s = s\<lparr>goroutines := (goroutines s)[i := g]\<rparr>"

definition go :: "'a goroutine \<Rightarrow> 'a state \<Rightarrow> 'a state" where
  "go g s = s\<lparr>goroutines := goroutines s @ [g]\<rparr>"

definition panic :: "'a state \<Rightarrow> 'a state" where
  "panic s = s\<lparr>panicked := True\<rparr>"

text \<open>\<open>sync.WaitGroup\<close>: \<open>Add\<close> panics when the counter becomes negative; \<open>Done\<close> is \<open>Add(-1)\<close>.\<close>

definition wg_Add :: "int \<Rightarrow> 'a state \<Rightarrow> 'a state" where
  "wg_Add n s = (if wg s + n < 0 then panic s else s\<lparr>wg := wg s + n\<rparr>)"

definition mark :: "url \<Rightarrow> 'a state \<Rightarrow> 'a state" where
  "mark u s = s\<lparr>scrapedUrls := (scrapedUrls s)(u \<mapsto> True)\<rparr>"

definition scraped :: "'a state \<Rightarrow> url \<Rightarrow> bool" where
  "scraped s u = (case scrapedUrls s u of None \<Rightarrow> False | Some _ \<Rightarrow> True)"

fun first_index :: "('b \<Rightarrow> bool) \<Rightarrow> 'b list \<Rightarrow> nat option" where
  "first_index P [] = None"
| "first_index P (x # xs) = (if P x then Some 0 else map_option Suc (first_index P xs))"

fun receiving_jobs :: "'a goroutine \<Rightarrow> bool" where
  "receiving_jobs (G_dispatch Disp_range) = True"
| "receiving_jobs _ = False"

fun receiving_ch :: "'a goroutine \<Rightarrow> bool" where
  "receiving_ch (G_sink Sink_range) = True"
| "receiving_ch _ = False"

subsection \<open>\<open>Run\<close>\<close>

text \<open>
  \<open>Run\<close> adds one unit per strategy, calls \<open>getData\<close> (which starts the dispatcher and the
  sink and returns), starts one walker per strategy, waits, and closes both channels.
\<close>

fun Run_step :: "nat \<Rightarrow> Run_pc \<Rightarrow> 'a state \<Rightarrow> 'a state" where
  "Run_step i Run_Add s =
     (let n = int (length (strategy s))
      in goto i (G_Run Run_go_jobs) (emit i (A_Add n) (wg_Add n s)))"
| "Run_step i Run_go_jobs s =
     goto i (G_Run Run_go_sink)
       (emit i (A_go (length (goroutines s))) (go (G_dispatch Disp_range) s))"
| "Run_step i Run_go_sink s =
     goto i (G_Run (Run_range 0))
       (emit i (A_go (length (goroutines s))) (go (G_sink Sink_select) s))"
| "Run_step i (Run_range k) s =
     (if k < length (strategy s)
      then goto i (G_Run (Run_range (Suc k)))
             (emit i (A_go (length (goroutines s)))
                (go (G_runScraper (Walk_GetUrls (strategy s ! k))) s))
      else goto i (G_Run Run_Wait) s)"
| "Run_step i Run_Wait s =
     (if wg s = 0 then goto i (G_Run Run_close_jobs) (emit i A_Wait s) else s)"
| "Run_step i Run_close_jobs s =
     (if jobs s = Closed then panic s
      else goto i (G_Run Run_close_ch) (emit i A_close_jobs (s\<lparr>jobs := Closed\<rparr>)))"
| "Run_step i Run_close_ch s =
     (if ch s = Closed then panic s
      else goto i (G_Run Run_returned) (emit i A_close_ch (s\<lparr>ch := Closed\<rparr>)))"
| "Run_step i Run_returned s = s"

subsection \<open>\<open>getData\<close>: the dispatcher, the extraction closure, the sink\<close>

fun dispatch_step :: "nat \<Rightarrow> 'a dispatch_pc \<Rightarrow> 'a state \<Rightarrow> 'a state" where
  "dispatch_step i Disp_range s =
     (if jobs s = Closed then goto i (G_dispatch Disp_returned) s else s)"
| "dispatch_step i (Disp_urls job []) s = goto i (G_dispatch Disp_range) s"
| "dispatch_step i (Disp_urls job (u # rest)) s =
     goto i (G_dispatch (Disp_delay job rest))
       (emit i (A_go (length (goroutines s)))
          (go (G_extract (Ext_check (scraper job) u)) s))"
| "dispatch_step i (Disp_delay job rest) s =
     (if requestDelay s > 0
      then goto i (G_dispatch (Disp_Sleep job rest (now s + requestDelay s)))
             (emit i (A_Sleep (requestDelay s)) s)
      else goto i (G_dispatch (Disp_urls job rest)) s)"
| "dispatch_step i (Disp_Sleep job rest wake) s =
     (if wake \<le> now s then goto i (G_dispatch (Disp_urls job rest)) s else s)"
| "dispatch_step i Disp_returned s = s"

fun extract_step :: "nat \<Rightarrow> 'a extract_pc \<Rightarrow> 'a state \<Rightarrow> 'a state" where
  "extract_step i (Ext_check sc u) s =
     (if scraped s u
      then goto i (G_extract Ext_Done) (emit i (A_check u True) s)
      else goto i (G_extract (Ext_GetData sc u)) (emit i (A_check u False) s))"
| "extract_step i (Ext_GetData sc u) s =
     goto i (G_extract (Ext_sending u (GetData sc (ctx_done s) u))) (emit i (A_GetData u) s)"
| "extract_step i (Ext_sending u (x # xs)) s =
     (if ch s = Closed then panic s
      else case first_index receiving_ch (goroutines s) of
             None \<Rightarrow> s
           | Some j \<Rightarrow>
               goto i (G_extract (Ext_sending u xs))
                 (goto j (G_sink (Sink_callback x)) (emit i (A_send x) s)))"
| "extract_step i (Ext_sending u []) s =
     goto i (G_extract Ext_Done) (emit i (A_mark u) (mark u s))"
| "extract_step i Ext_Done s =
     goto i (G_extract Ext_returned) (emit i A_Done (wg_Add (- 1) s))"
| "extract_step i Ext_returned s = s"

fun sink_step :: "nat \<Rightarrow> 'a sink_pc \<Rightarrow> 'a state \<Rightarrow> 'a state" where
  "sink_step i Sink_select s =
     (if ctx_done s then goto i (G_sink Sink_returned) s else goto i (G_sink Sink_range) s)"
| "sink_step i Sink_range s =
     (if ch s = Closed then goto i (G_sink Sink_returned) s else s)"
| "sink_step i (Sink_callback x) s = goto i (G_sink Sink_range) (emit i (A_callback x) s)"
| "sink_step i Sink_returned s = s"

subsection \<open>\<open>runScraper\<close>\<close>

fun runScraper_step :: "nat \<Rightarrow> 'a runScraper_pc \<Rightarrow> 'a state \<Rightarrow> 'a state" where
  "runScraper_step i (Walk_GetUrls st) s =
     (case GetUrls (Scraper st) (ctx_done s) (Url st) of
        (us, nextPages) \<Rightarrow>
          goto i (G_runScraper (Walk_mark st us nextPages)) (emit i (A_GetUrls (Url st)) s))"
| "runScraper_step i (Walk_mark st us nextPages) s =
     goto i (G_runScraper (Walk_Add_urls st us nextPages))
       (emit i (A_mark (Url st)) (mark (Url st) s))"
| "runScraper_step i (Walk_Add_urls st us nextPages) s =
     goto i (G_runScraper (Walk_Add_one st us nextPages))
       (emit i (A_Add (int (length us))) (wg_Add (int (length us)) s))"
| "runScraper_step i (Walk_Add_one st us nextPages) s =
     goto i (G_runScraper (Walk_send st us nextPages)) (emit i (A_Add 1) (wg_Add 1 s))"
| "runScraper_step i (Walk_send st us nextPages) s =
     (if jobs s = Closed then panic s
      else case first_index receiving_jobs (goroutines s) of
             None \<Rightarrow> s
           | Some j \<Rightarrow>
               goto i (G_runScraper (Walk_range st nextPages))
                 (goto j (G_dispatch (Disp_urls \<lparr>scraper = Scraper st, urls = us\<rparr> us))
                    (emit i (A_send_job us) s)))"
| "runScraper_step i (Walk_range st []) s = goto i (G_runScraper (Walk_Done st)) s"
| "runScraper_step i (Walk_range st (newUrl # rest)) s =
     (if scraped s newUrl
      then goto i (G_runScraper (Walk_range st rest)) (emit i (A_check newUrl True) s)
      else goto i (G_runScraper (Walk_Add_next st newUrl rest))
             (emit i (A_check newUrl False) s))"
| "runScraper_step i (Walk_Add_next st newUrl rest) s =
     goto i (G_runScraper (Walk_mark_next st newUrl rest)) (emit i (A_Add 1) (wg_Add 1 s))"
| "runScraper_step i (Walk_mark_next st newUrl rest) s =
     goto i (G_runScraper (Walk_go st newUrl rest)) (emit i (A_mark newUrl) (mark newUrl s))"
| "runScraper_step i (Walk_go st newUrl rest) s =
     goto i (G_runScraper (Walk_range st rest))
       (emit i (A_go (length (goroutines s)))
          (go (G_runScraper (Walk_GetUrls \<lparr>Scraper = Scraper st, Url = newUrl\<rparr>)) s))"
| "runScraper_step i (Walk_Done st) s =
     goto i (G_runScraper (Walk_returned st)) (emit i A_Done (wg_Add (- 1) s))"
| "runScraper_step i (Walk_returned st) s = s"

subsection \<open>Schedules\<close>

datatype choice = Sched nat | Tick | Cancel

fun goroutine_step :: "nat \<Rightarrow> 'a goroutine \<Rightarrow> 'a state \<Rightarrow> 'a state" where
  "goroutine_step i (G_Run pc) s = Run_step i pc s"
| "goroutine_step i (G_dispatch pc) s = dispatch_step i pc s"
| "goroutine_step i (G_sink pc) s = sink_step i pc s"
| "goroutine_step i (G_extract pc) s = extract_step i pc s"
| "goroutine_step i (G_runScraper pc) s = runScraper_step i pc s"

text \<open>A panic in any goroutine ends the program: nothing moves afterwards.\<close>

fun step :: "'a state \<Rightarrow> choice \<Rightarrow> 'a state" where
  "step s (Sched i) =
     (if panicked s \<or> length (goroutines s) \<le> i then s
      else goroutine_step i (goroutines s ! i) s)"
| "step s Tick = (if panicked s then s else s\<lparr>now := now s + 1\<rparr>)"
| "step s Cancel = (if panicked s then s else s\<lparr>ctx_done := True\<rparr>)"

definition exec :: "'a state \<Rightarrow> choice list \<Rightarrow> 'a state" where
  "exec s cs = foldl step s cs"

text \<open>The caller builds the engine and enters \<open>Run\<close> as goroutine 0.\<close>

definition Run :: "'a state \<Rightarrow> 'a state" where
  "Run s = go (G_Run Run_Add) s"

definition engine :: "'a ScraperStrategy list \<Rightarrow> int \<Rightarrow> choice list \<Rightarrow> 'a state" where
  "engine sts delay cs = exec (Run (NewScraper sts delay)) cs"

section \<open>Bookkeeping for the proofs\<close>

subsection \<open>WaitGroup units held by each goroutine\<close>

text \<open>
  Every unit added to the WaitGroup is attributed to the goroutine that will release it
  or hand it over. A walker holds its own unit until its deferred \<open>Done\<close>, the units of
  the item URLs between line 108 and the send of the job, the unit of a next page between
  line 120 and the \<open>go\<close> of line 124, and the unit that line 109 adds. No statement of
  the package releases the unit of line 109, so a walker still holds it after it returned.
\<close>

fun units_Run :: "nat \<Rightarrow> Run_pc \<Rightarrow> int" where
  "units_Run n Run_go_jobs = int n"
| "units_Run n Run_go_sink = int n"
| "units_Run n (Run_range k) = int (n - k)"
| "units_Run n _ = 0"

fun units_dispatch :: "'a dispatch_pc \<Rightarrow> int" where
  "units_dispatch (Disp_urls job rest) = int (length rest)"
| "units_dispatch (Disp_delay job rest) = int (length rest)"
| "units_dispatch (Disp_Sleep job rest wake) = int (length rest)"
| "units_dispatch _ = 0"

fun units_extract :: "'a extract_pc \<Rightarrow> int" where
  "units_extract Ext_returned = 0"
| "units_extract _ = 1"

fun units_runScraper :: "'a runScraper_pc \<Rightarrow> int" where
  "units_runScraper (Walk_GetUrls st) = 1"
| "units_runScraper (Walk_mark st us nextPages) = 1"
| "units_runScraper (Walk_Add_urls st us nextPages) = 1"
| "units_runScraper (Walk_Add_one st us nextPages) = 1 + int (length us)"
| "units_runScraper (Walk_send st us nextPages) = 2 + int (length us)"
| "units_runScraper (Walk_range st nextPages) = 2"
| "units_runScraper (Walk_Add_next st newUrl rest) = 2"
| "units_runScraper (Walk_mark_next st newUrl rest) = 3"
| "units_runScraper (Walk_go st newUrl rest) = 3"
| "units_runScraper (Walk_Done st) = 2"
| "units_runScraper (Walk_returned st) = 1"

fun units :: "nat \<Rightarrow> 'a goroutine \<Rightarrow> int" where
  "units n (G_Run pc) = units_Run n pc"
| "units n (G_dispatch pc) = units_dispatch pc"
| "units n (G_sink pc) = 0"
| "units n (G_extract pc) = units_extract pc"
| "units n (G_runScraper pc) = units_runScraper pc"

definition held :: "'a state \<Rightarrow> int" where
  "held s = (\<Sum>g\<leftarrow>goroutines s. units (length (strategy s)) g)"

fun past_Wait :: "Run_pc \<Rightarrow> bool" where
  "past_Wait Run_close_jobs = True"
| "past_Wait Run_close_ch = True"
| "past_Wait Run_returned = True"
| "past_Wait _ = False"

fun is_Run :: "'a goroutine \<Rightarrow> bool" where
  "is_Run (G_Run pc) = True"
| "is_Run _ = False"


fun is_runScraper :: "'a goroutine \<Rightarrow> bool" where
  "is_runScraper (G_runScraper pc) = True"
| "is_runScraper _ = False"

fun spawned :: "Run_pc \<Rightarrow> bool" where
  "spawned Run_Add = False"
| "spawned Run_go_jobs = False"
| "spawned Run_go_sink = False"
| "spawned (Run_range k) = (0 < k)"
| "spawned _ = True"

fun is_Wait :: "'a action \<Rightarrow> bool" where
  "is_Wait A_Wait = True"
| "is_Wait _ = False"

fun is_close :: "'a action \<Rightarrow> bool" where
  "is_close A_close_jobs = True"
| "is_close A_close_ch = True"
| "is_close _ = False"

fun Wait_returned :: "(int \<times> nat \<times> 'a action) list \<Rightarrow> bool" where
  "Wait_returned [] = False"
| "Wait_returned ((t, i, a) # tr) = (is_Wait a \<or> Wait_returned tr)"

fun closes_after_Wait :: "(int \<times> nat \<times> 'a action) list \<Rightarrow> bool" where
  "closes_after_Wait [] = True"
| "closes_after_Wait ((t, i, a) # tr) =
     ((is_close a \<longrightarrow> Wait_returned tr) \<and> closes_after_Wait tr)"

definition has_walker :: "'a goroutine list \<Rightarrow> bool" where
  "has_walker gs = list_ex is_runScraper gs"

definition progress :: "'a state \<Rightarrow> bool" where
  "progress s \<longleftrightarrow>
     (\<exists>pc gs. goroutines s = G_Run pc # gs \<and>
        (spawned pc \<longrightarrow> strategy s = [] \<or> has_walker gs) \<and>
        (past_Wait pc \<longrightarrow> Wait_returned (trace s)) \<and> closes_after_Wait (trace s))"

definition quiet :: "'a state \<Rightarrow> Run_pc \<Rightarrow> 'a goroutine list \<Rightarrow> 'a state \<Rightarrow> bool" where
  "quiet s pc gs s' \<longleftrightarrow>
     (\<exists>gs'. goroutines s' = G_Run pc # gs' \<and> (has_walker gs \<longrightarrow> has_walker gs')) \<and>
     strategy s' = strategy s \<and>
     (trace s' = trace s \<or>
      (\<exists>t i a. trace s' = (t, i, a) # trace s \<and> \<not> is_close a \<and> \<not> is_Wait a))"

definition sound :: "'a state \<Rightarrow> bool" where
  "sound s \<longleftrightarrow>
     \<not> panicked s \<and> wg s = held s \<and>
     (\<exists>pc gs. goroutines s = G_Run pc # gs \<and> (\<forall>g\<in>set gs. \<not> is_Run g) \<and>
        (past_Wait pc \<longrightarrow> (\<forall>g\<in>set gs. units (length (strategy s)) g = 0)) \<and>

        (jobs s = Closed \<longleftrightarrow> pc = Run_close_ch \<or> pc = Run_returned) \<and>
        (ch s = Closed \<longleftrightarrow> pc = Run_returned))"

subsection \<open>Observations on the log\<close>

definition main_pc :: "'a state \<Rightarrow> Run_pc option" where
  "main_pc s = (case goroutines s of G_Run pc # _ \<Rightarrow> Some pc | _ \<Rightarrow> None)"

text \<open>
  The goroutines that can still send on a channel: a walker that has not returned and an
  extraction closure that has not returned.
\<close>

fun running :: "'a goroutine \<Rightarrow> bool" where
  "running (G_runScraper (Walk_returned st)) = False"
| "running (G_runScraper pc) = True"
| "running (G_extract Ext_returned) = False"
| "running (G_extract pc) = True"
| "running g = False"

text \<open>
  What the callback received and which URLs \<open>GetUrls\<close> and \<open>GetData\<close> were called on,
  oldest first.
\<close>

fun callbacks :: "(int \<times> nat \<times> 'a action) list \<Rightarrow> 'a list" where
  "callbacks [] = []"
| "callbacks ((t, i, A_callback x) # tr) = callbacks tr @ [x]"
| "callbacks (e # tr) = callbacks tr"

fun walked :: "(int \<times> nat \<times> 'a action) list \<Rightarrow> url list" where
  "walked [] = []"
| "walked ((t, i, A_GetUrls u) # tr) = walked tr @ [u]"
| "walked (e # tr) = walked tr"

fun extracted :: "(int \<times> nat \<times> 'a action) list \<Rightarrow> url list" where
  "extracted [] = []"
| "extracted ((t, i, A_GetData u) # tr) = extracted tr @ [u]"
| "extracted (e # tr) = extracted tr"

subsection \<open>An engine without strategies\<close>

text \<open>
  Where \<open>Run\<close> stands after \<open>k\<close> of its statements when the strategy list is empty, and
  what the dispatcher and the sink can be doing meanwhile.
\<close>

definition Run_after :: "nat \<Rightarrow> Run_pc" where
  "Run_after k =
     (if k = 0 then Run_Add else if k = 1 then Run_go_jobs else if k = 2 then Run_go_sink
      else if k = 3 then Run_range 0 else if k = 4 then Run_Wait
      else if k = 5 then Run_close_jobs else if k = 6 then Run_close_ch else Run_returned)"

fun idle :: "'a goroutine \<Rightarrow> bool" where
  "idle (G_dispatch Disp_range) = True"
| "idle (G_dispatch Disp_returned) = True"
| "idle (G_sink Sink_select) = True"
| "idle (G_sink Sink_range) = True"
| "idle (G_sink Sink_returned) = True"
| "idle g = False"

definition quiescent :: "'a state \<Rightarrow> nat \<Rightarrow> bool" where
  "quiescent s k \<longleftrightarrow>
     (\<exists>gs. goroutines s = G_Run (Run_after k) # gs \<and> list_all idle gs) \<and>
     strategy s = [] \<and> wg s = 0 \<and> \<not> panicked s \<and>
     (jobs s = Closed \<longleftrightarrow> 6 \<le> k) \<and> (ch s = Closed \<longleftrightarrow> 7 \<le> k) \<and>
     callbacks (trace s) = [] \<and> walked (trace s) = [] \<and> extracted (trace s) = []"

subsection \<open>\<open>Done\<close> calls of one goroutine\<close>




subsection \<open>Walkers and the visited set\<close>

text \<open>
  The strategy a walker works on, whether it stands before line 107, and the next page it
  is about to start a walker for. \<open>url_marked\<close> is what holds of every goroutine: a walker's
  own URL is in the set unless it is a seed still before line 107, and so is the page of
  a pending \<open>go\<close>.
\<close>

fun strategy_of :: "'a runScraper_pc \<Rightarrow> 'a ScraperStrategy" where
  "strategy_of (Walk_GetUrls st) = st"
| "strategy_of (Walk_mark st us nextPages) = st"
| "strategy_of (Walk_Add_urls st us nextPages) = st"
| "strategy_of (Walk_Add_one st us nextPages) = st"
| "strategy_of (Walk_send st us nextPages) = st"
| "strategy_of (Walk_range st nextPages) = st"
| "strategy_of (Walk_Add_next st newUrl rest) = st"
| "strategy_of (Walk_mark_next st newUrl rest) = st"
| "strategy_of (Walk_go st newUrl rest) = st"
| "strategy_of (Walk_Done st) = st"
| "strategy_of (Walk_returned st) = st"





text \<open>How often a test of the visited set found \<open>u\<close> absent, that is, how often \<open>u\<close> was claimed.\<close>

fun claims_won :: "url \<Rightarrow> (int \<times> nat \<times> 'a action) list \<Rightarrow> nat" where
  "claims_won u [] = 0"
| "claims_won u ((t, i, A_check v False) # tr) =
     (if v = u then Suc (claims_won u tr) else claims_won u tr)"
| "claims_won u (e # tr) = claims_won u tr"

subsection \<open>Launch times\<close>

text \<open>
  The clock values at which goroutine \<open>i\<close> executed a \<open>go\<close> statement (newest first; for the
  dispatcher these are the launches of extraction closures, line 64) and the number of
  its calls of \<open>time.Sleep\<close>. \<open>time.Sleep(d)\<close> returns when at least \<open>d\<close> has passed: the
  sleeping dispatcher moves on once the clock has reached the wake-up time. A list of
  launch times is \<open>spaced\<close> when each launch comes at least \<open>d\<close> after the one before.
  \<open>horizon\<close> is the earliest clock value at which the dispatcher can launch again.
\<close>

fun launches :: "nat \<Rightarrow> (int \<times> nat \<times> 'a action) list \<Rightarrow> int list" where
  "launches i [] = []"
| "launches i ((t, j, A_go n) # tr) = (if j = i then t # launches i tr else launches i tr)"
| "launches i (e # tr) = launches i tr"

fun sleeps :: "nat \<Rightarrow> (int \<times> nat \<times> 'a action) list \<Rightarrow> nat" where
  "sleeps i [] = 0"
| "sleeps i ((t, j, A_Sleep d) # tr) = (if j = i then Suc (sleeps i tr) else sleeps i tr)"
| "sleeps i (e # tr) = sleeps i tr"

definition gap_ok :: "int \<Rightarrow> int \<Rightarrow> int list \<Rightarrow> bool" where
  "gap_ok d t ls = (case ls of [] \<Rightarrow> True | l # _ \<Rightarrow> l + d \<le> t)"

fun spaced :: "int \<Rightarrow> int list \<Rightarrow> bool" where
  "spaced d [] = True"
| "spaced d (t # ls) = (gap_ok d t ls \<and> spaced d ls)"

fun horizon :: "int \<Rightarrow> int \<Rightarrow> 'a dispatch_pc \<Rightarrow> int" where
  "horizon t d (Disp_delay job rest) = t + d"
| "horizon t d (Disp_Sleep job rest wake) = wake"
| "horizon t d pc = t"

fun owes_Sleep :: "'a dispatch_pc \<Rightarrow> nat" where
  "owes_Sleep (Disp_delay job rest) = 1"
| "owes_Sleep pc = 0"

fun on_time :: "int \<Rightarrow> int \<Rightarrow> 'a goroutine \<Rightarrow> int list \<Rightarrow> nat \<Rightarrow> bool" where
  "on_time d t (G_dispatch pc) ls n =
     (spaced d ls \<and> gap_ok d (horizon t d pc) ls \<and> (0 < d \<longrightarrow> n + owes_Sleep pc = length ls))"
| "on_time d t g ls n = True"

definition timed :: "'a state \<Rightarrow> bool" where
  "timed s \<longleftrightarrow>
     (\<forall>e\<in>set (trace s). fst (snd e) < length (goroutines s)) \<and>
     (\<forall>i<length (goroutines s).
        on_time (requestDelay s) (now s) (goroutines s ! i)
          (launches i (trace s)) (sleeps i (trace s)))"

fun waits_for_sink :: "'a extract_pc \<Rightarrow> bool" where
  "waits_for_sink (Ext_sending u (x # xs)) = True"
| "waits_for_sink pc = False"


subsection \<open>The counter and the log\<close>






subsection \<open>Walkers started and pages walked\<close>



fun walker_on :: "'a ScraperStrategy \<Rightarrow> 'a goroutine \<Rightarrow> int" where
  "walker_on st (G_runScraper pc) = (if strategy_of pc = st then 1 else 0)"
| "walker_on st g = 0"




section \<open>Example engines\<close>

text \<open>A page without items whose only next page is itself.\<close>

definition self_loop :: "string IScraper" where
  "self_loop = \<lparr>GetUrls = (\<lambda>cancelled u. ([], [u])), GetData = (\<lambda>cancelled u. [])\<rparr>"

definition self_loop_strategy :: "string ScraperStrategy list" where
  "self_loop_strategy = [\<lparr>Scraper = self_loop, Url = ''p''\<rparr>]"

text \<open>
  \<open>Run\<close> up to \<open>Wait\<close>, the sink into its loop, the walker up to the send, the dispatcher
  through the empty job, the walker to its end, and \<open>Run\<close> once more.
\<close>

definition self_loop_schedule :: "choice list" where
  "self_loop_schedule = map Sched [0, 0, 0, 0, 0, 2, 3, 3, 3, 3, 3, 1, 3, 3, 3, 0]"

text \<open>\<open>Run\<close> alone, seven statements.\<close>

definition Run_only :: "choice list" where
  "Run_only = map Sched [0, 0, 0, 0, 0, 0, 0]"







text \<open>
  The scenario of the specification: page \<open>p1\<close> lists \<open>a\<close> and \<open>b\<close> and has the next page
  \<open>p2\<close>, which lists \<open>b\<close> and \<open>c\<close>. After \<open>first_page_walked\<close> the walker of \<open>p1\<close> has
  started the walker of \<open>p2\<close>.
\<close>

definition two_pages :: "string IScraper" where
  "two_pages =
     \<lparr>GetUrls = (\<lambda>cancelled u.
         if u = ''p1'' then ([''a'', ''b''], [''p2''])
         else if u = ''p2'' then ([''b'', ''c''], []) else ([], [])),
      GetData = (\<lambda>cancelled u. [u])\<rparr>"

definition two_pages_strategy :: "string ScraperStrategy list" where
  "two_pages_strategy = [\<lparr>Scraper = two_pages, Url = ''p1''\<rparr>]"

definition first_page_walked :: "choice list" where
  "first_page_walked =
     map Sched [0, 0, 0, 0, 0, 2, 3, 3, 3, 3, 3, 1, 1, 1, 1, 1, 3, 3, 3, 3]"

text \<open>
  The scenario continued: the walker of \<open>p1\<close> returns, the walker of \<open>p2\<close> runs and the
  dispatcher starts the closures of its job (\<open>both_pages_walked\<close>; goroutines 4, 5, 7, 8
  extract \<open>a\<close>, \<open>b\<close>, \<open>b\<close>, \<open>c\<close>). Then \<open>a\<close> is extracted and both closures for \<open>b\<close> execute
  the test of line 68 before either reaches line 75 (\<open>both_checked\<close>), and all closures
  run to their end (\<open>two_pages_race\<close>).
\<close>

definition both_pages_walked :: "choice list" where
  "both_pages_walked =
     first_page_walked @ map Sched [3, 3, 6, 6, 6, 6, 6, 6, 6, 1, 1, 1, 1, 1]"

definition both_checked :: "choice list" where
  "both_checked = both_pages_walked @ map Sched [4, 4, 4, 2, 4, 4, 5, 7]"

definition two_pages_race :: "choice list" where
  "two_pages_race =
     both_checked @ map Sched [5, 5, 2, 5, 5, 7, 7, 2, 7, 7, 8, 8, 8, 2, 8, 8]"

text \<open>
  A diamond: \<open>p1\<close> links to \<open>p2\<close> and \<open>p3\<close>, which both link to \<open>p4\<close>; no items. In the
  schedule the walkers of \<open>p2\<close> and \<open>p3\<close> both execute the test of line 116 on \<open>p4\<close> before
  either executes line 121.
\<close>

definition diamond :: "string IScraper" where
  "diamond =
     \<lparr>GetUrls = (\<lambda>cancelled u.
         if u = ''p1'' then ([], [''p2'', ''p3''])
         else if u = ''p2'' \<or> u = ''p3'' then ([], [''p4'']) else ([], [])),
      GetData = (\<lambda>cancelled u. [u])\<rparr>"

definition diamond_race :: "choice list" where
  "diamond_race =
     map Sched [0, 0, 0, 0, 0, 2, 3, 3, 3, 3, 3, 1, 3, 3, 3, 3, 3, 3, 3, 3, 3, 3,
                4, 4, 4, 4, 4, 1, 4, 5, 5, 5, 5, 5, 1, 5,
                4, 4, 4, 5, 5, 5, 6, 7]"

text \<open>
  One page with one item. The context is cancelled after the sink has passed its
  \<open>select\<close>; the walk and the extraction happen afterwards.
\<close>

definition one_item :: "string IScraper" where
  "one_item =
     \<lparr>GetUrls = (\<lambda>cancelled u. if u = ''p'' then ([''a''], []) else ([], [])),
      GetData = (\<lambda>cancelled u. [u])\<rparr>"

definition cancelled_in_loop :: "choice list" where
  "cancelled_in_loop = map Sched [0, 0, 0, 0, 0, 2] @ [Cancel]"

definition delivered_after_cancel :: "choice list" where
  "delivered_after_cancel = cancelled_in_loop @ map Sched [3, 3, 3, 3, 3, 1, 4, 4, 4, 2]"

text \<open>
  One page with two items and a delay of 2. The dispatcher launches the closure for \<open>a\<close>
  and sleeps; while it sleeps the closure runs and the callback receives \<open>a\<close>; after two
  ticks the dispatcher launches the closure for \<open>b\<close> and sleeps again.
\<close>

definition two_items :: "string IScraper" where
  "two_items =
     \<lparr>GetUrls = (\<lambda>cancelled u. if u = ''p'' then ([''a'', ''b''], []) else ([], [])),
      GetData = (\<lambda>cancelled u. [u])\<rparr>"

definition delayed_schedule :: "choice list" where
  "delayed_schedule =
     map Sched [0, 0, 0, 0, 0, 2, 3, 3, 3, 3, 3, 1, 1, 1, 4, 4, 4, 2] @ [Tick, Tick] @
     map Sched [1, 1, 1]"





section \<open>Invariants of every execution\<close>

subsection \<open>The WaitGroup counter is the sum of the units held\<close>

text \<open>
  \<open>sound\<close> holds in every state of every execution: nothing has panicked, the counter is
  the sum of the units the goroutines hold, goroutine 0 is the only one inside \<open>Run\<close>,
  once \<open>Run\<close> is past \<open>Wait\<close> nobody holds a unit, and the channels are closed exactly as
  far as \<open>Run\<close> has come.
\<close>

lemma sum_list_map_update:
  "i < length xs \<Longrightarrow> (\<Sum>x\<leftarrow>xs[i := y]. f x) = (\<Sum>x\<leftarrow>xs. f x) - f (xs ! i) + (f y :: int)"
  by (induction xs arbitrary: i) (auto split: nat.splits)

lemma units_Run_nonneg: "0 \<le> units_Run n pc"
  by (cases pc) auto
lemma units_dispatch_nonneg: "0 \<le> units_dispatch pc"
  by (cases pc) auto
lemma units_extract_nonneg: "0 \<le> units_extract pc"
  by (cases pc) auto
lemma units_runScraper_pos: "1 \<le> units_runScraper pc"
  by (cases pc) auto

lemma units_nonneg: "0 \<le> units n g"
  using units_runScraper_pos[of "case g of G_runScraper pc \<Rightarrow> pc"]
  by (cases g) (auto simp: units_Run_nonneg units_dispatch_nonneg units_extract_nonneg)

lemma units_le_sum: "g \<in> set gs \<Longrightarrow> units n g \<le> (\<Sum>g\<leftarrow>gs. units n g)"
proof (induction gs)
  case Nil then show ?case by simp
next
  case (Cons a gs)
  have "0 \<le> (\<Sum>g\<leftarrow>gs. units n g)" by (rule sum_list_nonneg) (auto simp: units_nonneg)
  with Cons units_nonneg[of n a] show ?case by auto
qed

lemma units_le_held: "g \<in> set (goroutines s) \<Longrightarrow> units (length (strategy s)) g \<le> held s"
  unfolding held_def by (rule units_le_sum)

lemma held_nonneg: "0 \<le> held s"
  unfolding held_def by (rule sum_list_nonneg) (auto simp: units_nonneg)

lemma first_index_Some: "first_index P xs = Some j \<Longrightarrow> j < length xs \<and> P (xs ! j)"
  by (induction xs arbitrary: j) (auto split: if_splits)

lemma sound_Run_step:
  assumes "sound s" "goroutines s = G_Run pc # gs"
  shows "sound (Run_step 0 pc s)"
proof -
  note h = held_nonneg[of s]
  show ?thesis
  proof (cases pc)
    case Run_Wait
    have z: "held s = 0 \<Longrightarrow> g \<in> set gs \<Longrightarrow> units (length (strategy s)) g = 0" for g
      using units_le_held[of g s] units_nonneg[of "length (strategy s)" g] assms(2) by auto
    show ?thesis using assms Run_Wait z
      by (auto simp: sound_def goto_def emit_def held_def)
  next
    case (Run_range k)
    then show ?thesis using assms
      by (auto simp: sound_def goto_def emit_def held_def go_def)
  qed (use assms h in \<open>auto simp: sound_def goto_def emit_def held_def go_def wg_Add_def panic_def Let_def\<close>)
qed

lemma in_set_updateD: "x \<in> set (xs[i := y]) \<Longrightarrow> x = y \<or> x \<in> set xs"
  using set_update_subset_insert[of xs i y] by auto

lemmas effects = goto_def emit_def go_def wg_Add_def panic_def mark_def Let_def nth_append
  list_update_append

lemma sound_dispatch_step:
  assumes "sound s" "goroutines s = G_Run pc # gs" "j < length gs" "gs ! j = G_dispatch d"
  shows "sound (dispatch_step (Suc j) d s)"
proof -
  have m: "G_dispatch d \<in> set gs" using assms(3,4) nth_mem by fastforce
  show ?thesis
  proof (cases d)
    case (Disp_urls job rest)
    then show ?thesis using assms m
      by (cases rest)
         (auto simp: sound_def held_def effects sum_list_map_update dest!: in_set_updateD)
  qed (use assms m in \<open>auto simp: sound_def held_def effects sum_list_map_update dest!: in_set_updateD\<close>)
qed

lemma sound_sink_step:
  assumes "sound s" "goroutines s = G_Run pc # gs" "j < length gs" "gs ! j = G_sink d"
  shows "sound (sink_step (Suc j) d s)"
proof -
  have m: "G_sink d \<in> set gs" using assms(3,4) nth_mem by fastforce
  show ?thesis
    by (cases d)
       (use assms m in \<open>auto simp: sound_def held_def effects sum_list_map_update dest!: in_set_updateD\<close>)
qed

lemma receiving_ch_iff: "receiving_ch g \<longleftrightarrow> g = G_sink Sink_range"
  by (rule iffI, erule receiving_ch.elims) auto

lemma receiving_jobs_iff: "receiving_jobs g \<longleftrightarrow> g = G_dispatch Disp_range"
  by (rule iffI, erule receiving_jobs.elims) auto

lemma sound_extract_step:
  assumes "sound s" "goroutines s = G_Run pc # gs" "j < length gs" "gs ! j = G_extract d"
  shows "sound (extract_step (Suc j) d s)"
proof -
  have m: "G_extract d \<in> set gs" using assms(3,4) nth_mem by fastforce
  have le: "units_extract d \<le> held s"
    using units_le_held[of "G_extract d" s] m assms(2) by simp
  show ?thesis
  proof (cases d)
    case (Ext_sending u items)
    show ?thesis
    proof (cases items)
      case Nil
      then show ?thesis using assms m Ext_sending
        by (auto simp: sound_def held_def effects sum_list_map_update dest!: in_set_updateD)
    next
      case (Cons x xs)
      show ?thesis
      proof (cases "first_index receiving_ch (goroutines s)")
        case None
        then show ?thesis using assms m Ext_sending Cons by (auto simp: sound_def effects)
      next
        case (Some k)
        then obtain k' where k: "k = Suc k'" "k' < length gs" "gs ! k' = G_sink Sink_range"
          using assms(2) first_index_Some[of receiving_ch gs] by (auto simp: receiving_ch_iff)
        then have ne: "k' \<noteq> j" using assms(4) by auto
        have mk: "G_sink Sink_range \<in> set gs" using k nth_mem by fastforce
        show ?thesis using assms m mk Ext_sending Cons Some k ne
          by (auto simp: sound_def held_def effects sum_list_map_update dest!: in_set_updateD)
      qed
    qed
  qed (use assms m le in \<open>auto simp: sound_def held_def effects sum_list_map_update dest!: in_set_updateD\<close>)
qed

lemma sound_runScraper_step:
  assumes "sound s" "goroutines s = G_Run pc # gs" "j < length gs" "gs ! j = G_runScraper d"
  shows "sound (runScraper_step (Suc j) d s)"
proof -
  have m: "G_runScraper d \<in> set gs" using assms(3,4) nth_mem by fastforce
  have le: "units_runScraper d \<le> held s"
    using units_le_held[of "G_runScraper d" s] m assms(2) by simp
  have pos: "1 \<le> units_runScraper d" by (rule units_runScraper_pos)
  have open_chans: "\<not> past_Wait pc" "jobs s = Open" "ch s = Open"
    using assms(1,2) m pos unfolding sound_def by (auto intro: chan.exhaust)
  show ?thesis
  proof (cases d)
    case (Walk_GetUrls st)
    then show ?thesis using assms m open_chans
      by (auto simp: sound_def held_def effects sum_list_map_update split: prod.splits
               dest!: in_set_updateD)
  next
    case (Walk_send st us nextPages)
    show ?thesis
    proof (cases "first_index receiving_jobs (goroutines s)")
      case None
      then show ?thesis using assms m Walk_send open_chans by (auto simp: sound_def effects)
    next
      case (Some k)
      then obtain k' where k: "k = Suc k'" "k' < length gs" "gs ! k' = G_dispatch Disp_range"
        using assms(2) first_index_Some[of receiving_jobs gs] by (auto simp: receiving_jobs_iff)
      then have ne: "k' \<noteq> j" using assms(4) by auto
      show ?thesis using assms m Walk_send Some k ne open_chans
        by (auto simp: sound_def held_def effects sum_list_map_update dest!: in_set_updateD)
    qed
  next
    case (Walk_range st nextPages)
    then show ?thesis using assms m open_chans
      by (cases nextPages)
         (auto simp: sound_def held_def effects sum_list_map_update dest!: in_set_updateD)
  qed (use assms m le open_chans in
        \<open>auto simp: sound_def held_def effects sum_list_map_update dest!: in_set_updateD\<close>)
qed

lemma sound_step: "sound s \<Longrightarrow> sound (step s c)"
proof (cases c)
  case (Sched i)
  assume s: "sound s"
  then obtain pc gs where g: "goroutines s = G_Run pc # gs" unfolding sound_def by auto
  show ?thesis
  proof (cases i)
    case 0
    then show ?thesis using s g Sched sound_Run_step[OF s g] by (simp add: sound_def)
  next
    case (Suc j)
    show ?thesis
    proof (cases "j < length gs")
      case False
      then show ?thesis using s g Sched Suc by simp
    next
      case True
      have nr: "\<not> is_Run (gs ! j)" using s g True unfolding sound_def by auto
      show ?thesis
        using s g Sched Suc True nr
          sound_dispatch_step[OF s g True] sound_sink_step[OF s g True]
          sound_extract_step[OF s g True] sound_runScraper_step[OF s g True]
        by (cases "gs ! j") (auto simp: sound_def)
    qed
  qed
next
  case Tick
  assume "sound s" then show ?thesis using Tick by (auto simp: sound_def held_def)
next
  case Cancel
  assume "sound s" then show ?thesis using Cancel by (auto simp: sound_def held_def)
qed

lemma sound_exec: "sound s \<Longrightarrow> sound (exec s cs)"
  unfolding exec_def by (induction cs arbitrary: s) (auto simp: sound_step)

lemma sound_Run: "sound (Run (NewScraper sts delay))"
  by (simp add: sound_def Run_def NewScraper_def go_def held_def)

lemma sound_engine: "sound (engine sts delay cs)"
  unfolding engine_def by (rule sound_exec[OF sound_Run])

subsection \<open>Walkers stay, and the channels are closed after \<open>Wait\<close>\<close>

text \<open>
  A step of a goroutine other than \<open>Run\<close> is \<open>quiet\<close>: it leaves \<open>Run\<close> where it is, keeps
  every walker in the list of goroutines and logs neither \<open>Wait\<close> nor a \<open>close\<close>.
\<close>

lemma has_walker_update:
  "j < length gs \<Longrightarrow> is_runScraper g = is_runScraper (gs ! j) \<Longrightarrow>
   has_walker (gs[j := g]) = has_walker gs"
  unfolding has_walker_def list_ex_iff
  by (metis in_set_conv_nth length_list_update nth_list_update_eq nth_list_update_neq)

lemma has_walker_append: "has_walker (gs @ [g]) = (has_walker gs \<or> is_runScraper g)"
  unfolding has_walker_def by simp

lemmas walker_simps = has_walker_update has_walker_append nth_list_update

lemma quiet_dispatch_step:
  assumes "goroutines s = G_Run pc # gs" "j < length gs" "gs ! j = G_dispatch d"
  shows "quiet s pc gs (dispatch_step (Suc j) d s)"
proof (cases d)
  case (Disp_urls job rest)
  then show ?thesis using assms
    by (cases rest) (auto simp: quiet_def effects walker_simps)
qed (use assms in \<open>auto simp: quiet_def effects walker_simps\<close>)

lemma quiet_sink_step:
  assumes "goroutines s = G_Run pc # gs" "j < length gs" "gs ! j = G_sink d"
  shows "quiet s pc gs (sink_step (Suc j) d s)"
  by (cases d) (use assms in \<open>auto simp: quiet_def effects walker_simps\<close>)

lemma quiet_extract_step:
  assumes "goroutines s = G_Run pc # gs" "j < length gs" "gs ! j = G_extract d"
  shows "quiet s pc gs (extract_step (Suc j) d s)"
proof (cases d)
  case (Ext_sending u items)
  show ?thesis
  proof (cases items)
    case Nil
    then show ?thesis using assms Ext_sending by (auto simp: quiet_def effects walker_simps)
  next
    case (Cons x xs)
    show ?thesis
    proof (cases "first_index receiving_ch (goroutines s)")
      case None
      then show ?thesis using assms Ext_sending Cons by (auto simp: quiet_def effects)
    next
      case (Some k)
      then obtain k' where k: "k = Suc k'" "k' < length gs" "gs ! k' = G_sink Sink_range"
        using assms(1) first_index_Some[of receiving_ch gs] by (auto simp: receiving_ch_iff)
      then have ne: "k' \<noteq> j" using assms(3) by auto
      show ?thesis using assms Ext_sending Cons Some k ne
        by (auto simp: quiet_def effects walker_simps)
    qed
  qed
qed (use assms in \<open>auto simp: quiet_def effects walker_simps\<close>)

lemma quiet_runScraper_step:
  assumes "goroutines s = G_Run pc # gs" "j < length gs" "gs ! j = G_runScraper d"
  shows "quiet s pc gs (runScraper_step (Suc j) d s)"
proof (cases d)
  case (Walk_GetUrls st)
  then show ?thesis using assms
    by (auto simp: quiet_def effects walker_simps split: prod.splits)
next
  case (Walk_send st us nextPages)
  show ?thesis
  proof (cases "first_index receiving_jobs (goroutines s)")
    case None
    then show ?thesis using assms Walk_send by (auto simp: quiet_def effects)
  next
    case (Some k)
    then obtain k' where k: "k = Suc k'" "k' < length gs" "gs ! k' = G_dispatch Disp_range"
      using assms(1) first_index_Some[of receiving_jobs gs] by (auto simp: receiving_jobs_iff)
    then have ne: "k' \<noteq> j" using assms(3) by auto
    show ?thesis using assms Walk_send Some k ne
      by (auto simp: quiet_def effects walker_simps)
  qed
next
  case (Walk_range st nextPages)
  then show ?thesis using assms
    by (cases nextPages) (auto simp: quiet_def effects walker_simps)
qed (use assms in \<open>auto simp: quiet_def effects walker_simps\<close>)

lemma progress_quiet:
  assumes "progress s" "goroutines s = G_Run pc # gs" "quiet s pc gs s'"
  shows "progress s'"
  using assms unfolding progress_def quiet_def by auto

lemma progress_Run_step:
  assumes "sound s" "progress s" "goroutines s = G_Run pc # gs"
  shows "progress (Run_step 0 pc s)"
proof (cases pc)
  case (Run_range k)
  then show ?thesis using assms
    by (auto simp: progress_def effects walker_simps)
qed (use assms in \<open>auto simp: progress_def sound_def effects walker_simps\<close>)

lemma progress_step: "sound s \<Longrightarrow> progress s \<Longrightarrow> progress (step s c)"
proof (cases c)
  case (Sched i)
  assume s: "sound s" and p: "progress s"
  then obtain pc gs where g: "goroutines s = G_Run pc # gs" unfolding sound_def by auto
  show ?thesis
  proof (cases i)
    case 0
    then show ?thesis using s g Sched progress_Run_step[OF s p g] by (simp add: sound_def)
  next
    case (Suc j)
    show ?thesis
    proof (cases "j < length gs")
      case False
      then show ?thesis using p g Sched Suc by simp
    next
      case True
      have nr: "\<not> is_Run (gs ! j)" using s g True unfolding sound_def by auto
      have "quiet s pc gs (goroutine_step (Suc j) (gs ! j) s)"
        using nr quiet_dispatch_step[OF g True] quiet_sink_step[OF g True]
          quiet_extract_step[OF g True] quiet_runScraper_step[OF g True]
        by (cases "gs ! j") auto
      then show ?thesis
        using s g Sched Suc True progress_quiet[OF p g] by (simp add: sound_def)
    qed
  qed
next
  case Tick
  assume "progress s" then show ?thesis using Tick by (auto simp: progress_def)
next
  case Cancel
  assume "progress s" then show ?thesis using Cancel by (auto simp: progress_def)
qed

lemma progress_exec: "sound s \<Longrightarrow> progress s \<Longrightarrow> progress (exec s cs)"
  unfolding exec_def by (induction cs arbitrary: s) (auto simp: sound_step progress_step)

lemma progress_engine: "progress (engine sts delay cs)"
  unfolding engine_def
  by (rule progress_exec[OF sound_Run]) (simp add: progress_def Run_def NewScraper_def go_def)

subsection \<open>The strategies and the delay never change\<close>

lemma const_Run_step:
  "strategy (Run_step i pc s) = strategy s \<and> requestDelay (Run_step i pc s) = requestDelay s"
  by (induction i pc s rule: Run_step.induct) (auto simp: effects)

lemma const_dispatch_step:
  "strategy (dispatch_step i pc s) = strategy s \<and>
   requestDelay (dispatch_step i pc s) = requestDelay s"
  by (induction i pc s rule: dispatch_step.induct) (auto simp: effects)

lemma const_sink_step:
  "strategy (sink_step i pc s) = strategy s \<and> requestDelay (sink_step i pc s) = requestDelay s"
  by (induction i pc s rule: sink_step.induct) (auto simp: effects)

lemma const_extract_step:
  "strategy (extract_step i pc s) = strategy s \<and>
   requestDelay (extract_step i pc s) = requestDelay s"
  by (induction i pc s rule: extract_step.induct) (auto simp: effects split: option.splits)

lemma const_runScraper_step:
  "strategy (runScraper_step i pc s) = strategy s \<and>
   requestDelay (runScraper_step i pc s) = requestDelay s"
  by (induction i pc s rule: runScraper_step.induct)
     (auto simp: effects split: option.splits prod.splits)

lemma const_step:
  "strategy (step s c) = strategy s \<and> requestDelay (step s c) = requestDelay s"
proof (cases c)
  case (Sched i)
  then show ?thesis
    by (cases "goroutines s ! i")
       (auto simp: const_Run_step const_dispatch_step const_sink_step const_extract_step
          const_runScraper_step)
qed auto

lemma const_exec:
  "strategy (exec s cs) = strategy s \<and> requestDelay (exec s cs) = requestDelay s"
  unfolding exec_def by (induction cs arbitrary: s) (auto simp: const_step)

lemma strategy_engine: "strategy (engine sts delay cs) = sts"
  by (simp add: engine_def const_exec Run_def NewScraper_def go_def)

lemma requestDelay_engine: "requestDelay (engine sts delay cs) = delay"
  by (simp add: engine_def const_exec Run_def NewScraper_def go_def)

subsection \<open>With a strategy, \<open>Run\<close> stays before the return of \<open>Wait\<close>\<close>

lemma past_Wait_spawned: "past_Wait pc \<Longrightarrow> spawned pc"
  by (cases pc) auto

lemma walker_holds_unit: "is_runScraper g \<Longrightarrow> 1 \<le> units n g"
  by (cases g) (auto simp: units_runScraper_pos)

lemma Run_blocked:
  assumes "sts \<noteq> []"
  shows "\<exists>pc. main_pc (engine sts delay cs) = Some pc \<and> \<not> past_Wait pc"
proof -
  let ?s = "engine sts delay cs"
  obtain pc gs where g: "goroutines ?s = G_Run pc # gs"
    and z: "past_Wait pc \<longrightarrow> (\<forall>g\<in>set gs. units (length (strategy ?s)) g = 0)"
    using sound_engine[of sts delay cs] unfolding sound_def by auto
  have w: "spawned pc \<longrightarrow> has_walker gs"
    using progress_engine[of sts delay cs] g assms
    unfolding progress_def by (auto simp: strategy_engine)
  have "\<not> past_Wait pc"
  proof
    assume p: "past_Wait pc"
    then obtain g where "g \<in> set gs" "is_runScraper g"
      using w past_Wait_spawned unfolding has_walker_def list_ex_iff by blast
    then show False using z p walker_holds_unit[of g "length (strategy ?s)"] by auto
  qed
  then show ?thesis using g by (simp add: main_pc_def)
qed

lemmas run_simps = engine_def exec_def Run_def NewScraper_def effects scraped_def

section \<open>The claims\<close>

subsection \<open>C1: termination of \<open>Run\<close>\<close>

text \<open>
  C1. \<open>Run\<close> is claimed to return for every finite pagination graph, the single
  self-loop included. On the self-loop the walk itself finishes (the walker returns, no
  extraction is outstanding) and leaves the WaitGroup counter at 1: the unit of line 109.
  Whatever the schedule, and whether or not the context is cancelled, \<open>Run\<close> never gets
  past \<open>Wait\<close>.
\<close>

theorem Run_never_returns_on_self_loop:
  "main_pc (engine self_loop_strategy delay cs) \<noteq> Some Run_returned \<and>
   wg (engine self_loop_strategy 0 self_loop_schedule) = 1 \<and>
   goroutines (engine self_loop_strategy 0 self_loop_schedule) =
     [G_Run Run_Wait, G_dispatch Disp_range, G_sink Sink_range,
      G_runScraper (Walk_returned \<lparr>Scraper = self_loop, Url = ''p''\<rparr>)]"
proof -
  have ne: "self_loop_strategy \<noteq> []" by (simp add: self_loop_strategy_def)
  have "main_pc (engine self_loop_strategy delay cs) \<noteq> Some Run_returned"
    using Run_blocked[OF ne, of delay cs] by auto
  moreover have "wg (engine self_loop_strategy 0 self_loop_schedule) = 1"
    by (simp add: run_simps self_loop_strategy_def self_loop_def self_loop_schedule_def)
  moreover have "goroutines (engine self_loop_strategy 0 self_loop_schedule) =
     [G_Run Run_Wait, G_dispatch Disp_range, G_sink Sink_range,
      G_runScraper (Walk_returned \<lparr>Scraper = self_loop, Url = ''p''\<rparr>)]"
    by (simp add: run_simps self_loop_strategy_def self_loop_def self_loop_schedule_def)
  ultimately show ?thesis by blast
qed

subsection \<open>C7: the channels are closed after \<open>Wait\<close>\<close>

lemma no_units_not_running: "units n g = 0 \<Longrightarrow> \<not> running g"
  using units_runScraper_pos[of "case g of G_runScraper pc \<Rightarrow> pc"]
  by (cases g rule: running.cases) auto

text \<open>
  C7. In every execution each \<open>close\<close> in the log comes after the return of \<open>Wait\<close>; once
  a channel is closed no walker and no extraction closure is still running; and no
  execution panics, so no goroutine ever sends on a closed channel (or closes one twice,
  or drives the counter negative).
\<close>

theorem channels_closed_only_after_Wait:
  "closes_after_Wait (trace (engine sts delay cs)) \<and> \<not> panicked (engine sts delay cs) \<and>
   (jobs (engine sts delay cs) = Closed \<or> ch (engine sts delay cs) = Closed \<longrightarrow>
      Wait_returned (trace (engine sts delay cs)) \<and>
      (\<forall>g\<in>set (goroutines (engine sts delay cs)). \<not> running g))"
proof -
  let ?s = "engine sts delay cs"
  obtain pc gs where g: "goroutines ?s = G_Run pc # gs"
    and z: "past_Wait pc \<longrightarrow> (\<forall>g\<in>set gs. units (length (strategy ?s)) g = 0)"
    and c: "jobs ?s = Closed \<longleftrightarrow> pc = Run_close_ch \<or> pc = Run_returned"
           "ch ?s = Closed \<longleftrightarrow> pc = Run_returned"
    and np: "\<not> panicked ?s"
    using sound_engine[of sts delay cs] unfolding sound_def by auto
  have p: "past_Wait pc \<longrightarrow> Wait_returned (trace ?s)" "closes_after_Wait (trace ?s)"
    using progress_engine[of sts delay cs] g unfolding progress_def by auto
  have "jobs ?s = Closed \<or> ch ?s = Closed \<Longrightarrow> past_Wait pc" using c by auto
  then show ?thesis using g z p np by (auto dest: no_units_not_running)
qed

theorem channels_closed_only_after_Wait_witness:
  "jobs (engine ([] :: string ScraperStrategy list) 0 Run_only) = Closed \<and>
   ch (engine ([] :: string ScraperStrategy list) 0 Run_only) = Closed \<and>
   Wait_returned (trace (engine ([] :: string ScraperStrategy list) 0 Run_only)) \<and>
   closes_after_Wait (trace (engine ([] :: string ScraperStrategy list) 0 Run_only)) \<and>
   \<not> panicked (engine ([] :: string ScraperStrategy list) 0 Run_only)"
  using channels_closed_only_after_Wait[of "[] :: string ScraperStrategy list" 0 Run_only]
  by (simp add: run_simps Run_only_def)

subsection \<open>C10: no strategies\<close>

lemma quiescent_Run:
  assumes "quiescent s k"
  shows "quiescent (step s (Sched 0)) (Suc k)"
proof -
  consider "k = 0" | "k = 1" | "k = 2" | "k = 3" | "k = 4" | "k = 5" | "k = 6" | "7 \<le> k"
    by linarith
  then show ?thesis
    using assms by cases (auto simp: quiescent_def Run_after_def effects)
qed

lemma list_all_update: "list_all P xs \<Longrightarrow> P y \<Longrightarrow> list_all P (xs[i := y])"
  unfolding list_all_iff using set_update_subset_insert[of xs i y] by auto

lemma quiescent_idle:
  assumes "quiescent s k"
  shows "quiescent (step s (Sched (Suc j))) k"
proof -
  obtain gs where g: "goroutines s = G_Run (Run_after k) # gs" "list_all idle gs"
    using assms unfolding quiescent_def by auto
  show ?thesis
  proof (cases "j < length gs")
    case False
    then show ?thesis using assms g by simp
  next
    case True
    then have "idle (gs ! j)" using g(2) by (simp add: list_all_length)
    then show ?thesis using assms g True
      by (cases "gs ! j" rule: idle.cases)
         (auto simp: quiescent_def effects list_all_update)
  qed
qed

lemma quiescent_step:
  "quiescent s k \<Longrightarrow> quiescent (step s c) (if c = Sched 0 then Suc k else k)"
proof (cases c)
  case (Sched i)
  assume "quiescent s k"
  then show ?thesis using Sched quiescent_Run[of s k] quiescent_idle[of s k]
    by (cases i) auto
next
  case Tick
  assume "quiescent s k" then show ?thesis using Tick by (auto simp: quiescent_def)
next
  case Cancel
  assume "quiescent s k" then show ?thesis using Cancel by (auto simp: quiescent_def)
qed

lemma quiescent_exec:
  "quiescent s k \<Longrightarrow> quiescent (exec s cs) (k + count_list cs (Sched 0))"
proof (induction cs arbitrary: s k)
  case Nil
  then show ?case by (simp add: exec_def)
next
  case (Cons c cs)
  from Cons.IH[OF quiescent_step[OF Cons.prems, of c]]
  show ?case by (auto simp: exec_def simp del: step.simps split: if_splits)
qed

lemma quiescent_engine: "quiescent (engine [] delay cs) (count_list cs (Sched 0))"
proof -
  have "quiescent (Run (NewScraper [] delay)) 0"
    by (simp add: quiescent_def Run_def NewScraper_def go_def Run_after_def)
  from quiescent_exec[OF this, of cs] show ?thesis by (simp add: engine_def)
qed

text \<open>
  C10. With an empty strategy list the counter stays 0, the callback, \<open>GetUrls\<close> and
  \<open>GetData\<close> are never called, and once \<open>Run\<close> has been scheduled for its seven statements
  it has returned, after \<open>Wait\<close> returned and both channels were closed, whatever the other
  goroutines, the clock and the context did in between.
\<close>

theorem Run_without_strategies:
  "wg (engine [] delay cs :: 'a state) = 0 \<and>
   callbacks (trace (engine [] delay cs :: 'a state)) = [] \<and>
   walked (trace (engine [] delay cs :: 'a state)) = [] \<and>
   extracted (trace (engine [] delay cs :: 'a state)) = [] \<and>
   (7 \<le> count_list cs (Sched 0) \<longrightarrow>
      main_pc (engine [] delay cs :: 'a state) = Some Run_returned \<and>
      Wait_returned (trace (engine [] delay cs :: 'a state)) \<and>
      jobs (engine [] delay cs :: 'a state) = Closed \<and> ch (engine [] delay cs :: 'a state) = Closed)"
proof -
  let ?s = "engine [] delay cs :: 'a state"
  note q = quiescent_engine[of delay cs, where 'a = 'a]
  have w: "7 \<le> count_list cs (Sched 0) \<Longrightarrow> Wait_returned (trace ?s)"
    using q progress_engine[of "[] :: 'a ScraperStrategy list" delay cs]
    unfolding quiescent_def progress_def by (auto simp: Run_after_def)
  show ?thesis using q w
    unfolding quiescent_def by (auto simp: Run_after_def main_pc_def)
qed

theorem Run_without_strategies_witness:
  "7 \<le> count_list Run_only (Sched 0) \<and>
   main_pc (engine ([] :: string ScraperStrategy list) 0 Run_only) = Some Run_returned \<and>
   jobs (engine ([] :: string ScraperStrategy list) 0 Run_only) = Closed \<and>
   ch (engine ([] :: string ScraperStrategy list) 0 Run_only) = Closed \<and>
   callbacks (trace (engine ([] :: string ScraperStrategy list) 0 Run_only)) = []"
  using Run_without_strategies[of 0 Run_only, where 'a = string]
  by (simp add: Run_only_def)

subsection \<open>C6: one \<open>Done\<close> per extraction closure\<close>



































subsection \<open>C8: walkers mark their URL\<close>
























lemma walker_on_nonneg: "0 \<le> walker_on st g"
  by (cases g) auto















subsection \<open>C2, C3, C5, C4: the unsynchronised visited set and the sink\<close>

text \<open>
  C2 at the scenario of the specification: with the two closures for \<open>b\<close> interleaved
  between line 68 and line 75, the callback receives \<open>b\<close> twice.
\<close>

theorem callback_twice_for_b:
  "callbacks (trace (engine two_pages_strategy 0 two_pages_race)) = [''a'', ''b'', ''b'', ''c'']"
  by (simp add: run_simps two_pages_strategy_def two_pages_def first_page_walked_def
        both_pages_walked_def both_checked_def two_pages_race_def)

text \<open>
  C3: the test (line 68) and the insertion (line 75) are two statements with \<open>GetData\<close>
  between them. Two closures claim \<open>b\<close>, both claims succeed, and both closures stand
  before their call of \<open>GetData\<close>.
\<close>

theorem two_claims_of_b_succeed:
  "claims_won ''b'' (trace (engine two_pages_strategy 0 both_checked)) = 2 \<and>
   goroutines (engine two_pages_strategy 0 both_checked) ! 5 =
     G_extract (Ext_GetData two_pages ''b'') \<and>
   goroutines (engine two_pages_strategy 0 both_checked) ! 7 =
     G_extract (Ext_GetData two_pages ''b'')"
  by (simp add: run_simps two_pages_strategy_def two_pages_def first_page_walked_def
        both_pages_walked_def both_checked_def)

text \<open>
  C5 on the diamond: the test of line 116 and the insertion of line 121 are two
  statements, both parents pass the test, and \<open>p4\<close> is walked twice.
\<close>

theorem diamond_page_walked_twice:
  "walked (trace (engine [\<lparr>Scraper = diamond, Url = ''p1''\<rparr>] 0 diamond_race)) =
     [''p1'', ''p2'', ''p3'', ''p4'', ''p4'']"
  by (simp add: run_simps diamond_def diamond_race_def)

text \<open>
  C4: the sink tests the context once, in the \<open>select\<close> before its loop. Cancelled after
  that, with no item delivered yet, it still receives the item and calls the callback.
\<close>

theorem callback_after_cancellation:
  "ctx_done (engine [\<lparr>Scraper = one_item, Url = ''p''\<rparr>] 0 cancelled_in_loop) \<and>
   callbacks (trace (engine [\<lparr>Scraper = one_item, Url = ''p''\<rparr>] 0 cancelled_in_loop)) = [] \<and>
   callbacks (trace (engine [\<lparr>Scraper = one_item, Url = ''p''\<rparr>] 0 delivered_after_cancel)) =
     [''a'']"
  by (simp add: run_simps one_item_def cancelled_in_loop_def delivered_after_cancel_def)

subsection \<open>C9: the delay between launches\<close>

lemma launches_fresh:
  "\<forall>e\<in>set tr. fst (snd e) < n \<Longrightarrow> n \<le> j \<Longrightarrow> launches j tr = []"
  by (induction j tr rule: launches.induct) auto

lemma sleeps_fresh:
  "\<forall>e\<in>set tr. fst (snd e) < n \<Longrightarrow> n \<le> j \<Longrightarrow> sleeps j tr = 0"
  by (induction j tr rule: sleeps.induct) auto

lemma gap_ok_mono: "gap_ok d t ls \<Longrightarrow> t \<le> t' \<Longrightarrow> gap_ok d t' ls"
  by (auto simp: gap_ok_def split: list.splits)

lemma gap_ok_Nil: "gap_ok d t []"
  by (simp add: gap_ok_def)

lemma gap_ok_Cons: "gap_ok d t (l # ls) \<longleftrightarrow> l + d \<le> t"
  by (simp add: gap_ok_def)

lemmas timed_simps = timed_def effects nth_list_update less_Suc_eq launches_fresh sleeps_fresh
  gap_ok_Nil gap_ok_Cons

lemma timed_Run_step:
  assumes "timed s" "i < length (goroutines s)" "goroutines s ! i = G_Run pc"
  shows "timed (Run_step i pc s)"
  using assms
  by (induction i pc s rule: Run_step.induct) (force simp: timed_simps)+

lemma timed_sink_step:
  assumes "timed s" "i < length (goroutines s)" "goroutines s ! i = G_sink pc"
  shows "timed (sink_step i pc s)"
  using assms
  by (induction i pc s rule: sink_step.induct) (force simp: timed_simps)+

lemma timed_nth:
  "timed s \<Longrightarrow> i < length (goroutines s) \<Longrightarrow>
   on_time (requestDelay s) (now s) (goroutines s ! i) (launches i (trace s))
     (sleeps i (trace s))"
  unfolding timed_def by simp

lemma timed_dispatch_step:
  assumes "timed s" "i < length (goroutines s)" "goroutines s ! i = G_dispatch pc"
  shows "timed (dispatch_step i pc s)"
  using assms timed_nth[OF assms(1,2)]
proof (induction i pc s rule: dispatch_step.induct)
  case (3 i job u rest s)
  then show ?case by (force simp: timed_simps)
next
  case (4 i job rest s)
  then show ?case by (force simp: timed_simps gap_ok_def split: list.splits)
next
  case (5 i job rest wake s)
  then show ?case by (force simp: timed_simps intro: gap_ok_mono)
qed (force simp: timed_simps)+

lemma timed_extract_step:
  assumes "timed s" "i < length (goroutines s)" "goroutines s ! i = G_extract pc"
  shows "timed (extract_step i pc s)"
  using assms
proof (induction i pc s rule: extract_step.induct)
  case (3 i u x xs s)
  show ?case
  proof (cases "first_index receiving_ch (goroutines s)")
    case None
    then show ?thesis using 3 by (simp add: timed_simps)
  next
    case (Some k)
    then have k: "k < length (goroutines s)" "goroutines s ! k = G_sink Sink_range"
      using first_index_Some[of receiving_ch "goroutines s" k] by (auto simp: receiving_ch_iff)
    then show ?thesis using 3 Some by (force simp: timed_simps)
  qed
qed (force simp: timed_simps)+

lemma timed_runScraper_step:
  assumes "timed s" "i < length (goroutines s)" "goroutines s ! i = G_runScraper pc"
  shows "timed (runScraper_step i pc s)"
  using assms
proof (induction i pc s rule: runScraper_step.induct)
  case (5 i st us nextPages s)
  show ?case
  proof (cases "first_index receiving_jobs (goroutines s)")
    case None
    then show ?thesis using 5 by (simp add: timed_simps)
  next
    case (Some k)
    then have k: "k < length (goroutines s)" "goroutines s ! k = G_dispatch Disp_range"
      using first_index_Some[of receiving_jobs "goroutines s" k]
      by (auto simp: receiving_jobs_iff)
    have "on_time (requestDelay s) (now s) (G_dispatch Disp_range) (launches k (trace s))
            (sleeps k (trace s))"
      using timed_nth[OF 5(1) k(1)] k(2) by simp
    then show ?thesis using 5 Some k by (force simp: timed_simps)
  qed
qed (force simp: timed_simps split: prod.splits)+

lemma on_time_Tick: "on_time d t g ls n \<Longrightarrow> on_time d (t + 1) g ls n"
proof (cases g)
  case (G_dispatch pc)
  assume "on_time d t g ls n"
  then show ?thesis using G_dispatch by (cases pc) (auto intro: gap_ok_mono)
qed auto

lemma timed_step: "timed s \<Longrightarrow> timed (step s c)"
proof (cases c)
  case (Sched i)
  assume d: "timed s"
  show ?thesis
  proof (cases "i < length (goroutines s)")
    case False
    then show ?thesis using d Sched by simp
  next
    case True
    then show ?thesis
      using d Sched timed_Run_step[OF d True] timed_dispatch_step[OF d True]
        timed_sink_step[OF d True] timed_extract_step[OF d True]
        timed_runScraper_step[OF d True]
      by (cases "goroutines s ! i") auto
  qed
next
  case Tick
  assume "timed s" then show ?thesis using Tick by (auto simp: timed_def on_time_Tick)
next
  case Cancel
  assume "timed s" then show ?thesis using Cancel by (auto simp: timed_def)
qed

lemma timed_exec: "timed s \<Longrightarrow> timed (exec s cs)"
  unfolding exec_def by (induction cs arbitrary: s) (auto simp: timed_step simp del: step.simps)

lemma timed_engine: "timed (engine sts delay cs)"
  unfolding engine_def
  by (rule timed_exec) (simp add: timed_def Run_def NewScraper_def go_def)

lemma extract_moves:
  assumes "\<not> panicked s" "j < length (goroutines s)" "goroutines s ! j = G_extract pc"
    and "pc \<noteq> Ext_returned" "\<not> waits_for_sink pc"
  shows "goroutines (step s (Sched j)) ! j \<noteq> G_extract pc"
  using assms by (cases pc rule: waits_for_sink.cases) (auto simp: effects)

text \<open>
  C9. In every execution the launches of a dispatcher are spaced by \<open>requestDelay\<close>: between
  one \<open>go\<close> of line 64 and the next the clock advances by at least the delay. With a
  positive delay the dispatcher has slept once per launch (the sleep of the last launch
  is still due while it stands at line 80). The sleep is the dispatcher's alone: an
  extraction closure that is scheduled makes its next step in any state, unless it has
  returned or waits for the sink to receive.
\<close>

theorem launches_spaced_by_requestDelay:
  assumes "i < length (goroutines (engine sts delay cs))"
    and "goroutines (engine sts delay cs) ! i = G_dispatch pc"
  shows "spaced delay (launches i (trace (engine sts delay cs))) \<and>
         (0 < delay \<longrightarrow>
            sleeps i (trace (engine sts delay cs)) + owes_Sleep pc =
            length (launches i (trace (engine sts delay cs)))) \<and>
         (\<forall>j pc'. j < length (goroutines (engine sts delay cs)) \<and>
            goroutines (engine sts delay cs) ! j = G_extract pc' \<and>
            pc' \<noteq> Ext_returned \<and> \<not> waits_for_sink pc' \<longrightarrow>
            goroutines (step (engine sts delay cs) (Sched j)) ! j \<noteq> G_extract pc')"
proof -
  let ?s = "engine sts delay cs"
  have "on_time delay (now ?s) (G_dispatch pc) (launches i (trace ?s)) (sleeps i (trace ?s))"
    using timed_nth[OF timed_engine assms(1)] assms(2) by (simp add: requestDelay_engine)
  moreover have "\<not> panicked ?s"
    using sound_engine[of sts delay cs] unfolding sound_def by simp
  ultimately show ?thesis using extract_moves[of ?s] by auto
qed

theorem launches_spaced_by_requestDelay_witness:
  "goroutines (engine [\<lparr>Scraper = two_items, Url = ''p''\<rparr>] 2 delayed_schedule) ! 1 =
     G_dispatch (Disp_Sleep \<lparr>scraper = two_items, urls = [''a'', ''b'']\<rparr> [] 4) \<and>
   launches 1 (trace (engine [\<lparr>Scraper = two_items, Url = ''p''\<rparr>] 2 delayed_schedule)) = [2, 0] \<and>
   spaced 2 (launches 1 (trace (engine [\<lparr>Scraper = two_items, Url = ''p''\<rparr>] 2 delayed_schedule))) \<and>
   sleeps 1 (trace (engine [\<lparr>Scraper = two_items, Url = ''p''\<rparr>] 2 delayed_schedule)) = 2 \<and>
   callbacks (trace (engine [\<lparr>Scraper = two_items, Url = ''p''\<rparr>] 2 delayed_schedule)) = [''a'']"
proof -
  let ?s = "engine [\<lparr>Scraper = two_items, Url = ''p''\<rparr>] 2 delayed_schedule"
  have l: "1 < length (goroutines ?s)"
    by (simp add: run_simps two_items_def delayed_schedule_def)
  have g: "goroutines ?s ! 1 =
     G_dispatch (Disp_Sleep \<lparr>scraper = two_items, urls = [''a'', ''b'']\<rparr> [] 4)"
    by (simp add: run_simps two_items_def delayed_schedule_def)
  have t: "launches 1 (trace ?s) = [2, 0]"
    by (simp add: run_simps two_items_def delayed_schedule_def)
  have c: "callbacks (trace ?s) = [''a'']"
    by (simp add: run_simps two_items_def delayed_schedule_def)
  from launches_spaced_by_requestDelay[OF l g]
  have "spaced 2 (launches 1 (trace ?s))" "sleeps 1 (trace ?s) = 2"
    by (simp_all add: t del: One_nat_def step.simps)
  then show ?thesis using g t c by simp
qed

end
